theory Spec2Isabelle
  imports Main "HOL-Library.Word"
begin

unbundle bit_operations_syntax

section \<open>Machine types\<close>

text \<open>
  The embedding follows \<^verbatim>\<open>src/main.c\<close>. \<^verbatim>\<open>uint8_t\<close>, \<^verbatim>\<open>uint32_t\<close> and
  \<^verbatim>\<open>uint64_t\<close> are words: addition wraps. Values of type \<^verbatim>\<open>size_t\<close>
  (\<^verbatim>\<open>len\<close>, \<^verbatim>\<open>data_pos\<close>, \<^verbatim>\<open>N\<close>, \<^verbatim>\<open>i\<close>, \<^verbatim>\<open>msgblk_len\<close>) are natural numbers:
  lemma \<open>size_t_no_wrap\<close> below shows that no \<^verbatim>\<open>size_t\<close> expression of the function
  leaves the range of \<^verbatim>\<open>size_t\<close> when \<^verbatim>\<open>len\<close> is in it, and that the one subtraction
  \<^verbatim>\<open>len - data_pos\<close> never goes below zero. The one place where a wider product can wrap,
  \<^verbatim>\<open>( uint64_t ) len * 8\<close>, is computed on 64-bit words.
\<close>

type_synonym u8 = "8 word"
type_synonym u32 = "32 word"
type_synonym u64 = "64 word"

section \<open>The macros\<close>

definition CH :: "u32 \<Rightarrow> u32 \<Rightarrow> u32 \<Rightarrow> u32" where
  "CH x y z = (x AND y) XOR (NOT x AND z)"

definition MAJ :: "u32 \<Rightarrow> u32 \<Rightarrow> u32 \<Rightarrow> u32" where
  "MAJ x y z = (x AND y) XOR (x AND z) XOR (y AND z)"

definition ROTR :: "u32 \<Rightarrow> nat \<Rightarrow> u32" where
  "ROTR x n = drop_bit n x OR push_bit (32 - n) x"

definition ROTL :: "u32 \<Rightarrow> nat \<Rightarrow> u32" where
  "ROTL x n = push_bit n x OR drop_bit (32 - n) x"

definition e0 :: "u32 \<Rightarrow> u32" where
  "e0 x = ROTR x 2 XOR ROTR x 13 XOR ROTR x 22"

definition e1 :: "u32 \<Rightarrow> u32" where
  "e1 x = ROTR x 6 XOR ROTR x 11 XOR ROTR x 25"

definition s0 :: "u32 \<Rightarrow> u32" where
  "s0 x = ROTR x 7 XOR ROTR x 18 XOR drop_bit 3 x"

definition s1 :: "u32 \<Rightarrow> u32" where
  "s1 x = ROTR x 17 XOR ROTR x 19 XOR drop_bit 10 x"

text \<open>
  \<^verbatim>\<open>BYTESWAP\<close> is only applied to \<^verbatim>\<open>uint32_t\<close> values and its result is stored in
  a \<^verbatim>\<open>uint32_t\<close>; the wider type of the constant \<^verbatim>\<open>0x00ff00ffL\<close> does not change
  the 32 bits that are kept.
\<close>

definition BYTESWAP :: "u32 \<Rightarrow> u32" where
  "BYTESWAP x = (ROTR x 8 AND 0xff00ff00) OR (ROTL x 8 AND 0x00ff00ff)"

text \<open>The macro \<^verbatim>\<open>MIN\<close>; the name \<open>MIN\<close> is taken by HOL's syntax.\<close>

definition MIN_macro :: "nat \<Rightarrow> nat \<Rightarrow> nat" where
  "MIN_macro a b = (if a < b then a else b)"

section \<open>Constants\<close>

text \<open>The table \<^verbatim>\<open>K\<close>, one row of the source per row.\<close>

definition K :: "u32 list" where
  "K = concat [
    [0x428a2f98, 0x71374491, 0xb5c0fbcf, 0xe9b5dba5, 0x3956c25b, 0x59f111f1, 0x923f82a4, 0xab1c5ed5],
    [0xd807aa98, 0x12835b01, 0x243185be, 0x550c7dc3, 0x72be5d74, 0x80deb1fe, 0x9bdc06a7, 0xc19bf174],
    [0xe49b69c1, 0xefbe4786, 0x0fc19dc6, 0x240ca1cc, 0x2de92c6f, 0x4a7484aa, 0x5cb0a9dc, 0x76f988da],
    [0x983e5152, 0xa831c66d, 0xb00327c8, 0xbf597fc7, 0xc6e00bf3, 0xd5a79147, 0x06ca6351, 0x14292967],
    [0x27b70a85, 0x2e1b2138, 0x4d2c6dfc, 0x53380d13, 0x650a7354, 0x766a0abb, 0x81c2c92e, 0x92722c85],
    [0xa2bfe8a1, 0xa81a664b, 0xc24b8b70, 0xc76c51a3, 0xd192e819, 0xd6990624, 0xf40e3585, 0x106aa070],
    [0x19a4c116, 0x1e376c08, 0x2748774c, 0x34b0bcb5, 0x391c0cb3, 0x4ed8aa4a, 0x5b9cca4f, 0x682e6ff3],
    [0x748f82ee, 0x78a5636f, 0x84c87814, 0x8cc70208, 0x90befffa, 0xa4506ceb, 0xbef9a3f7, 0xc67178f2]]"

text \<open>The initial contents of the local array \<^verbatim>\<open>H\<close>.\<close>

definition H_init :: "u32 list" where
  "H_init = [0x6a09e667, 0xbb67ae85, 0x3c6ef372, 0xa54ff53a,
             0x510e527f, 0x9b05688c, 0x1f83d9ab, 0x5be0cd19]"

section \<open>Memory\<close>

text \<open>
  \<^verbatim>\<open>memcpy( dst, src, n )\<close> on the byte view of a destination of fixed size: the first
  \<open>n\<close> bytes come from \<open>src\<close>, the others are kept. The function reads \<open>src ! j\<close> for
  \<open>j < n\<close> only; the caller of \<^verbatim>\<open>sha256\<close> has to supply \<^verbatim>\<open>len\<close> readable bytes.
\<close>

definition memcpy :: "u8 list \<Rightarrow> u8 list \<Rightarrow> nat \<Rightarrow> u8 list" where
  "memcpy dst src n = map (\<lambda>j. if j < n then src ! j else dst ! j) [0..<length dst]"

text \<open>
  The array \<^verbatim>\<open>uint32_t M[ 16 ]\<close> is written through \<^verbatim>\<open>( uint8_t * ) M\<close> and read as
  words. The code is written for a little-endian machine (its comments say that the words are
  little endian until \<^verbatim>\<open>BYTESWAP\<close> is applied): word \<open>w\<close> of a byte array has its least
  significant byte at index \<open>4 * w\<close>. \<open>store_le\<close> is the way back, used by the final
  \<^verbatim>\<open>memcpy( md, H, 32 )\<close>.
\<close>

definition load_le :: "u8 list \<Rightarrow> nat \<Rightarrow> u32" where
  "load_le bs w = ucast (bs ! (4 * w)) OR push_bit 8 (ucast (bs ! (4 * w + 1)))
     OR push_bit 16 (ucast (bs ! (4 * w + 2))) OR push_bit 24 (ucast (bs ! (4 * w + 3)))"

definition store_le :: "u32 \<Rightarrow> u8 list" where
  "store_le x = [ucast x, ucast (drop_bit 8 x), ucast (drop_bit 16 x), ucast (drop_bit 24 x)]"

section \<open>Preparing one message block\<close>

text \<open>\<^verbatim>\<open>size_t N = ( len / 64 ) + 1 + ( len % 64 >= 56 ? 1 : 0 );\<close>\<close>

definition block_count :: "nat \<Rightarrow> nat" where
  "block_count len = len div 64 + 1 + (if len mod 64 \<ge> 56 then 1 else 0)"

text \<open>\<^verbatim>\<open>uint64_t bitlen = ( uint64_t ) len * 8;\<close>\<close>

definition bitlen :: "nat \<Rightarrow> u64" where
  "bitlen len = of_nat len * 8"

text \<open>
  What one iteration of the block loop prepares before the schedule: the copy length
  \<^verbatim>\<open>msgblk_len\<close>, whether the store of \<^verbatim>\<open>0x80\<close> was executed, the bytes of \<^verbatim>\<open>M\<close> after
  the copy and the padding, and the words of \<^verbatim>\<open>M\<close> after \<^verbatim>\<open>BYTESWAP\<close> and the length
  field, which are the words the schedule reads.
\<close>

record msgblk =
  msgblk_len :: nat
  marked :: bool
  M_bytes :: "u8 list"
  M :: "u32 list"

text \<open>
  Lines 160 to 200 of the source, for the loop state \<open>i\<close>, \<open>data_pos\<close>. The store
  \<^verbatim>\<open>( ( uint8_t * ) M )[ msgblk_len ] = 0x80\<close> is within the 64 bytes of \<^verbatim>\<open>M\<close> only when
  \<^verbatim>\<open>msgblk_len < 64\<close>; lemma \<open>marker_index_lt_64\<close> shows that this holds whenever
  the store is executed in a run of the loop, so the list update below is the store.
\<close>

definition msg_block :: "u8 list \<Rightarrow> nat \<Rightarrow> nat \<Rightarrow> nat \<Rightarrow> nat \<Rightarrow> msgblk" where
  "msg_block data len N i data_pos =
    (let M0 = replicate 64 0;
         n = MIN_macro (len - data_pos) 64;
         M1 = (if n > 0 then memcpy M0 (drop data_pos data) n else M0);
         pad = ((n < 64 \<and> n \<noteq> 0) \<or> (len mod 64 = 0 \<and> i = N));
         M2 = (if pad then M1[n := 0x80] else M1);
         Mw = map (\<lambda>w. BYTESWAP (load_le M2 w)) [0..<16];
         Mf = (if i = N
               then (Mw[15 := ucast (bitlen len)])[14 := ucast (drop_bit 32 (bitlen len))]
               else Mw)
     in \<lparr>msgblk_len = n, marked = pad, M_bytes = M2, M = Mf\<rparr>)"

section \<open>Message schedule\<close>

text \<open>\<^verbatim>\<open>for ( size_t t = 0; t < 16; t++ ) W[ t ] = M[ t ];\<close>\<close>

function copy_loop :: "u32 list \<Rightarrow> u32 list \<Rightarrow> nat \<Rightarrow> u32 list" where
  "copy_loop W Mw t = (if t < 16 then copy_loop (W[t := Mw ! t]) Mw (t + 1) else W)"
  by pat_completeness auto
termination
  by (relation "measure (\<lambda>(W, Mw, t). 16 - t)") auto

text \<open>\<^verbatim>\<open>for ( size_t t = 16; t < 64; t++ ) W[ t ] = s1( W[ t - 2 ] ) + W[ t - 7 ] + s0( W[ t - 15 ] ) + W[ t - 16 ];\<close>\<close>

function expand_loop :: "u32 list \<Rightarrow> nat \<Rightarrow> u32 list" where
  "expand_loop W t =
     (if t < 64
      then expand_loop (W[t := s1 (W ! (t - 2)) + W ! (t - 7) + s0 (W ! (t - 15)) + W ! (t - 16)]) (t + 1)
      else W)"
  by pat_completeness auto
termination
  by (relation "measure (\<lambda>(W, t). 64 - t)") auto

declare copy_loop.simps [simp del] expand_loop.simps [simp del]

text \<open>
  The two loops, from the contents \<open>W0\<close> that the uninitialised array \<^verbatim>\<open>W[ 64 ]\<close> has
  on entry. Lemma \<open>schedule_initial_contents\<close> shows that the result does not depend on
  them.
\<close>

definition schedule :: "u32 list \<Rightarrow> u32 list \<Rightarrow> u32 list" where
  "schedule W0 Mw = expand_loop (copy_loop W0 Mw 0) 16"

section \<open>Compression\<close>

type_synonym vars = "u32 \<times> u32 \<times> u32 \<times> u32 \<times> u32 \<times> u32 \<times> u32 \<times> u32"

text \<open>The body of the round loop: the assignments in the order of the source, each one
  seeing the values the earlier ones have written.\<close>

definition round_body :: "u32 list \<Rightarrow> nat \<Rightarrow> vars \<Rightarrow> vars" where
  "round_body W t = (\<lambda>(a, b, c, d, e, f, g, h).
     let T1 = h + e1 e + CH e f g + K ! t + W ! t;
         T2 = e0 a + MAJ a b c;
         h = g;
         g = f;
         f = e;
         e = d + T1;
         d = c;
         c = b;
         b = a;
         a = T1 + T2
     in (a, b, c, d, e, f, g, h))"

function round_loop :: "u32 list \<Rightarrow> nat \<Rightarrow> vars \<Rightarrow> vars" where
  "round_loop W t v = (if t < 64 then round_loop W (t + 1) (round_body W t v) else v)"
  by pat_completeness auto
termination
  by (relation "measure (\<lambda>(W, t, v). 64 - t)") auto

declare round_loop.simps [simp del]

text \<open>Lines 208 to 253: schedule, working variables, rounds, update of \<^verbatim>\<open>H\<close>.\<close>

definition process_block :: "u32 list \<Rightarrow> u32 list \<Rightarrow> u32 list" where
  "process_block H Mw =
    (let W = schedule (replicate 64 0) Mw;
         (a, b, c, d, e, f, g, h) =
            round_loop W 0 (H ! 0, H ! 1, H ! 2, H ! 3, H ! 4, H ! 5, H ! 6, H ! 7)
     in [H ! 0 + a, H ! 1 + b, H ! 2 + c, H ! 3 + d, H ! 4 + e, H ! 5 + f, H ! 6 + g, H ! 7 + h])"

section \<open>The block loop and the digest\<close>

text \<open>\<^verbatim>\<open>for ( size_t i = 1; i <= N; i++ )\<close>, with the state \<open>data_pos\<close>, \<open>H\<close>.\<close>

function sha256_loop :: "u8 list \<Rightarrow> nat \<Rightarrow> nat \<Rightarrow> nat \<Rightarrow> nat \<Rightarrow> u32 list \<Rightarrow> u32 list" where
  "sha256_loop data len N i data_pos H =
     (if i \<le> N
      then let blk = msg_block data len N i data_pos
           in sha256_loop data len N (i + 1) (data_pos + msgblk_len blk) (process_block H (M blk))
      else H)"
  by pat_completeness auto
termination
  by (relation "measure (\<lambda>(data, len, N, i, data_pos, H). N + 1 - i)") auto

text \<open>
  The same loop, returning the blocks it prepares, in order, instead of the hash value.
  Lemma \<open>sha256_loop_foldl\<close> shows that \<open>sha256_loop\<close> processes exactly these blocks.
\<close>

function sha256_blocks :: "u8 list \<Rightarrow> nat \<Rightarrow> nat \<Rightarrow> nat \<Rightarrow> nat \<Rightarrow> msgblk list" where
  "sha256_blocks data len N i data_pos =
     (if i \<le> N
      then let blk = msg_block data len N i data_pos
           in blk # sha256_blocks data len N (i + 1) (data_pos + msgblk_len blk)
      else [])"
  by pat_completeness auto
termination
  by (relation "measure (\<lambda>(data, len, N, i, data_pos). N + 1 - i)") auto

declare sha256_loop.simps [simp del] sha256_blocks.simps [simp del]

definition sha256_trace :: "u8 list \<Rightarrow> nat \<Rightarrow> msgblk list" where
  "sha256_trace data len = sha256_blocks data len (block_count len) 1 0"

text \<open>The 32 bytes that lines 262 to 272 copy into \<^verbatim>\<open>md\<close>.\<close>

definition sha256_md :: "u8 list \<Rightarrow> nat \<Rightarrow> u8 list" where
  "sha256_md data len =
     (let H = sha256_loop data len (block_count len) 1 0 H_init
      in concat (map (\<lambda>x. store_le (BYTESWAP x)) H))"

text \<open>
  The function as its caller sees it. \<^verbatim>\<open>static uint8_t md[ 32 ]\<close> is the one object that
  outlives a call; it is the state the function reads and writes. The value returned is a
  pointer: the address of \<^verbatim>\<open>md\<close> in every execution. \<open>Null\<close> is the other value the type
  \<^verbatim>\<open>uint8_t *\<close> has that a caller could tell apart from a digest.
\<close>

datatype ptr = Null | Static_md

record statics =
  md :: "u8 list"

definition sha256 :: "statics \<Rightarrow> u8 list \<Rightarrow> nat \<Rightarrow> ptr \<times> statics" where
  "sha256 s data len = (Static_md, s\<lparr>md := sha256_md data len\<rparr>)"

text \<open>What a caller reads through a pointer in a given state.\<close>

fun deref :: "statics \<Rightarrow> ptr \<Rightarrow> u8 list option" where
  "deref s Null = None"
| "deref s Static_md = Some (md s)"

section \<open>Derived notions used in the statements\<close>

text \<open>
  The block prepared in iteration \<open>j + 1\<close> of the loop, with the value \<open>data_pos\<close> has
  there. Lemma \<open>sha256_trace_map\<close> proves that the trace consists of these blocks.
\<close>

definition nth_block :: "u8 list \<Rightarrow> nat \<Rightarrow> nat \<Rightarrow> msgblk" where
  "nth_block data len j = msg_block data len (block_count len) (Suc j) (min len (64 * j))"

text \<open>
  Big-endian reading and writing of a word, as FIPS 180-4 reads the message and writes the
  digest. Lemmas \<open>BYTESWAP_load_le\<close> and \<open>store_le_BYTESWAP\<close> show that this is what
  the code's combination of little-endian memory and \<^verbatim>\<open>BYTESWAP\<close> computes.
\<close>

definition load_be :: "u8 list \<Rightarrow> nat \<Rightarrow> u32" where
  "load_be bs w = push_bit 24 (ucast (bs ! (4 * w))) OR push_bit 16 (ucast (bs ! (4 * w + 1)))
     OR push_bit 8 (ucast (bs ! (4 * w + 2))) OR ucast (bs ! (4 * w + 3))"

definition store_be :: "u32 \<Rightarrow> u8 list" where
  "store_be x = [ucast (drop_bit 24 x), ucast (drop_bit 16 x), ucast (drop_bit 8 x), ucast x]"

text \<open>
  The functions of the specification, in its words: \<open>rotr\<close> is rotation of a 32-bit word
  to the right, \<open>sigma0\<close>, \<open>sigma1\<close> the small and \<open>Sigma0\<close>, \<open>Sigma1\<close> the capital
  sigma functions, and \<open>spec_round\<close> one round with all working variables replaced at once.
\<close>

definition rotr :: "u32 \<Rightarrow> nat \<Rightarrow> u32" where
  "rotr x n = word_rotr n x"

definition sigma0 :: "u32 \<Rightarrow> u32" where
  "sigma0 x = rotr x 7 XOR rotr x 18 XOR drop_bit 3 x"

definition sigma1 :: "u32 \<Rightarrow> u32" where
  "sigma1 x = rotr x 17 XOR rotr x 19 XOR drop_bit 10 x"

definition Sigma0 :: "u32 \<Rightarrow> u32" where
  "Sigma0 x = rotr x 2 XOR rotr x 13 XOR rotr x 22"

definition Sigma1 :: "u32 \<Rightarrow> u32" where
  "Sigma1 x = rotr x 6 XOR rotr x 11 XOR rotr x 25"

definition Ch :: "u32 \<Rightarrow> u32 \<Rightarrow> u32 \<Rightarrow> u32" where
  "Ch x y z = (x AND y) XOR (NOT x AND z)"

definition Maj :: "u32 \<Rightarrow> u32 \<Rightarrow> u32 \<Rightarrow> u32" where
  "Maj x y z = (x AND y) XOR (x AND z) XOR (y AND z)"

definition spec_round :: "u32 \<Rightarrow> u32 \<Rightarrow> vars \<Rightarrow> vars" where
  "spec_round k w = (\<lambda>(a, b, c, d, e, f, g, h).
     let T1 = h + Sigma1 e + Ch e f g + k + w;
         T2 = Sigma0 a + Maj a b c
     in (T1 + T2, a, b, c, d + T1, e, f, g))"

text \<open>
  The two digests that the specification lists as test vectors, 8 bytes per row:
  \<open>e3b0c442 98fc1c14 9afbf4c8 996fb924 27ae41e4 649b934c a495991b 7852b855\<close> for the
  empty input and
  \<open>ba7816bf 8f01cfea 414140de 5dae2223 b00361a3 96177a9c b410ff61 f20015ad\<close> for abc.
\<close>

definition digest_empty :: "u8 list" where
  "digest_empty = concat
    [
     [0xe3, 0xb0, 0xc4, 0x42, 0x98, 0xfc, 0x1c, 0x14],
     [0x9a, 0xfb, 0xf4, 0xc8, 0x99, 0x6f, 0xb9, 0x24],
     [0x27, 0xae, 0x41, 0xe4, 0x64, 0x9b, 0x93, 0x4c],
     [0xa4, 0x95, 0x99, 0x1b, 0x78, 0x52, 0xb8, 0x55]]"

definition digest_abc :: "u8 list" where
  "digest_abc = concat
    [
     [0xba, 0x78, 0x16, 0xbf, 0x8f, 0x01, 0xcf, 0xea],
     [0x41, 0x41, 0x40, 0xde, 0x5d, 0xae, 0x22, 0x23],
     [0xb0, 0x03, 0x61, 0xa3, 0x96, 0x17, 0x7a, 0x9c],
     [0xb4, 0x10, 0xff, 0x61, 0xf2, 0x00, 0x15, 0xad]]"

section \<open>The block loop: lemmas\<close>

lemma data_pos_step:
  "1 \<le> i \<Longrightarrow> min len (64 * (i - 1)) + MIN_macro (len - min len (64 * (i - 1))) 64 = min len (64 * ((i + 1) - 1))"
  by (auto simp: MIN_macro_def min_def)

lemma msgblk_len_msg_block: "msgblk_len (msg_block data len N i dp) = MIN_macro (len - dp) 64"
  by (simp add: msg_block_def Let_def)

lemma marked_msg_block:
  "marked (msg_block data len N i dp) \<longleftrightarrow>
     (MIN_macro (len - dp) 64 < 64 \<and> MIN_macro (len - dp) 64 \<noteq> 0) \<or> (len mod 64 = 0 \<and> i = N)"
  by (simp add: msg_block_def Let_def)

lemma sha256_blocks_map:
  "1 \<le> i \<Longrightarrow> dp = min len (64 * (i - 1)) \<Longrightarrow>
   sha256_blocks data len N i dp =
   map (\<lambda>j. msg_block data len N j (min len (64 * (j - 1)))) [i..<Suc N]"
proof (induction data len N i dp rule: sha256_blocks.induct)
  case (1 data len N i dp)
  show ?case
  proof (cases "i \<le> N")
    case True
    have step: "dp + msgblk_len (msg_block data len N i dp) = min len (64 * ((i + 1) - 1))"
      using "1.prems" data_pos_step [of i len] by (simp add: msgblk_len_msg_block)
    have IH: "sha256_blocks data len N (i + 1) (dp + msgblk_len (msg_block data len N i dp)) =
          map (\<lambda>j. msg_block data len N j (min len (64 * (j - 1)))) [i + 1..<Suc N]"
      using "1.IH" [OF True refl _ step] by simp
    have upt: "[i..<Suc N] = i # [i + 1..<Suc N]"
      using True by (simp add: upt_conv_Cons del: upt_Suc)
    have "sha256_blocks data len N i dp =
          msg_block data len N i dp #
          sha256_blocks data len N (i + 1) (dp + msgblk_len (msg_block data len N i dp))"
      using True by (subst sha256_blocks.simps) (simp add: Let_def)
    then show ?thesis
      unfolding IH upt using "1.prems" by simp
  next
    case False
    then show ?thesis by (subst sha256_blocks.simps) simp
  qed
qed

lemma sha256_loop_foldl:
  "sha256_loop data len N i dp H =
   foldl (\<lambda>H blk. process_block H (M blk)) H (sha256_blocks data len N i dp)"
proof (induction data len N i dp H rule: sha256_loop.induct)
  case (1 data len N i dp H)
  show ?case
  proof (cases "i \<le> N")
    case True
    then show ?thesis
      using "1.IH" [OF True refl]
      by (subst sha256_loop.simps, subst sha256_blocks.simps) (simp add: Let_def)
  next
    case False
    then show ?thesis by (subst sha256_loop.simps, subst sha256_blocks.simps) simp
  qed
qed

lemma sha256_trace_map:
  "sha256_trace data len = map (nth_block data len) [0..<block_count len]"
proof -
  have "sha256_trace data len =
        map (\<lambda>j. msg_block data len (block_count len) j (min len (64 * (j - 1)))) [1..<Suc (block_count len)]"
    unfolding sha256_trace_def by (rule sha256_blocks_map) simp_all
  also have "[1..<Suc (block_count len)] = map Suc [0..<block_count len]"
    using map_Suc_upt [of 0 "block_count len"] by simp
  finally show ?thesis
    by (simp add: nth_block_def comp_def del: upt_Suc)
qed

lemma length_sha256_trace: "length (sha256_trace data len) = block_count len"
  by (simp add: sha256_trace_map)

lemma nth_sha256_trace:
  "j < block_count len \<Longrightarrow> sha256_trace data len ! j = nth_block data len j"
  by (simp add: sha256_trace_map)

lemma block_count_pos: "0 < block_count len"
  by (simp add: block_count_def)

lemma block_count_cases:
  "block_count len = (if len mod 64 < 56 then len div 64 + 1 else len div 64 + 2)"
  by (simp add: block_count_def)

lemma div_lt_block_count: "len div 64 < block_count len"
  by (simp add: block_count_def)

lemma msgblk_len_nth_block:
  "msgblk_len (nth_block data len j) =
     (if j < len div 64 then 64 else if j = len div 64 then len mod 64 else 0)"
proof -
  define q r where "q = len div 64" and "r = len mod 64"
  then have len: "len = 64 * q + r" and r: "r < 64" by simp_all
  show ?thesis
    unfolding nth_block_def msgblk_len_msg_block q_def [symmetric] r_def [symmetric]
    unfolding len using r by (auto simp: MIN_macro_def min_def)
qed

lemma marked_nth_block:
  "j < block_count len \<Longrightarrow> marked (nth_block data len j) \<longleftrightarrow> j = len div 64"
proof -
  assume j: "j < block_count len"
  have ml: "MIN_macro (len - min len (64 * j)) 64 =
              (if j < len div 64 then 64 else if j = len div 64 then len mod 64 else 0)"
    using msgblk_len_nth_block [of data len j]
    by (simp add: nth_block_def msgblk_len_msg_block)
  show ?thesis
    unfolding nth_block_def marked_msg_block ml
    using j by (auto simp: block_count_def split: if_splits)
qed

lemma marker_index_lt_64:
  "j < block_count len \<Longrightarrow> marked (nth_block data len j) \<Longrightarrow>
   msgblk_len (nth_block data len j) < 64"
  by (simp add: marked_nth_block msgblk_len_nth_block)

lemma filter_eq_upt: "filter (\<lambda>j. j = k) [0..<n] = (if k < n then [k] else [])"
  by (induction n) auto

lemma filter_marked_trace:
  "filter marked (sha256_trace data len) = [nth_block data len (len div 64)]"
proof -
  have "filter marked (sha256_trace data len) =
        map (nth_block data len) (filter (\<lambda>j. marked (nth_block data len j)) [0..<block_count len])"
    by (simp add: sha256_trace_map filter_map comp_def)
  also have "filter (\<lambda>j. marked (nth_block data len j)) [0..<block_count len] =
             filter (\<lambda>j. j = len div 64) [0..<block_count len]"
    by (rule filter_cong) (simp_all add: marked_nth_block)
  finally show ?thesis
    by (simp add: filter_eq_upt div_lt_block_count)
qed

section \<open>The contents of a block\<close>

lemma length_memcpy: "length (memcpy dst src n) = length dst"
  by (simp add: memcpy_def)

lemma nth_memcpy: "j < length dst \<Longrightarrow> memcpy dst src n ! j = (if j < n then src ! j else dst ! j)"
  by (simp add: memcpy_def)

lemma length_M_bytes_msg_block: "length (M_bytes (msg_block data len N i dp)) = 64"
  by (simp add: msg_block_def Let_def length_memcpy)

lemma nth_M_bytes_msg_block:
  assumes "j < 64"
  shows "M_bytes (msg_block data len N i dp) ! j =
     (if marked (msg_block data len N i dp) \<and> j = msgblk_len (msg_block data len N i dp) then 0x80
      else if j < msgblk_len (msg_block data len N i dp) then drop dp data ! j
      else 0)"
  using assms by (simp add: msg_block_def Let_def nth_memcpy nth_list_update length_memcpy)

lemma length_M_msg_block: "length (M (msg_block data len N i dp)) = 16"
  by (simp add: msg_block_def Let_def)

lemma M_msg_block_final:
  "M (msg_block data len N N dp) ! 14 = ucast (drop_bit 32 (bitlen len)) \<and>
   M (msg_block data len N N dp) ! 15 = ucast (bitlen len)"
  by (simp add: msg_block_def Let_def nth_list_update)

lemma M_msg_block_word:
  "w < 16 \<Longrightarrow> i \<noteq> N \<or> w < 14 \<Longrightarrow>
   M (msg_block data len N i dp) ! w = BYTESWAP (load_le (M_bytes (msg_block data len N i dp)) w)"
  by (auto simp add: msg_block_def Let_def nth_list_update simp del: upt_Suc)

lemma split_u64:
  "unat (ucast (drop_bit 32 B) :: u32) * 2 ^ 32 + unat (ucast B :: u32) = unat B" for B :: u64
proof -
  have "unat B < 2 ^ 64" using unsigned_less [of B] by simp
  then have "unat B div 2 ^ 32 < 2 ^ 32" by (simp add: less_mult_imp_div_less)
  moreover have "unat (drop_bit 32 B) = unat B div 2 ^ 32"
    unfolding unat_drop_bit_eq by (simp add: drop_bit_eq_div)
  ultimately have hi: "unat (ucast (drop_bit 32 B) :: u32) = unat B div 2 ^ 32"
    by (simp add: unsigned_ucast_eq take_bit_eq_mod)
  have lo: "unat (ucast B :: u32) = unat B mod 2 ^ 32"
    by (simp add: unsigned_ucast_eq take_bit_eq_mod)
  show ?thesis unfolding hi lo by simp
qed

lemma unat_bitlen: "unat (bitlen len) = (len * 8) mod 2 ^ 64"
  by (simp add: bitlen_def unat_word_ariths unat_of_nat mod_mult_left_eq)

lemma last_sha256_trace:
  "last (sha256_trace data len) = nth_block data len (block_count len - 1)"
  using block_count_pos [of len]
  by (simp add: last_conv_nth length_sha256_trace nth_sha256_trace sha256_trace_map del: upt_Suc)

lemma M_last_block:
  "M (last (sha256_trace data len)) ! 14 = ucast (drop_bit 32 (bitlen len)) \<and>
   M (last (sha256_trace data len)) ! 15 = ucast (bitlen len)"
proof -
  have "Suc (block_count len - 1) = block_count len"
    using block_count_pos [of len] by simp
  then show ?thesis
    unfolding last_sha256_trace nth_block_def
    using M_msg_block_final [of data len "block_count len"] by simp
qed

lemma nth_M_bytes_nth_block:
  assumes "k < 64" "j < block_count len"
  shows "M_bytes (nth_block data len j) ! k =
     (if j = len div 64 \<and> k = len mod 64 then 0x80
      else if j < len div 64 \<or> (j = len div 64 \<and> k < len mod 64) then drop (64 * j) data ! k
      else 0)"
proof -
  have dp: "j \<le> len div 64 \<Longrightarrow> min len (64 * j) = 64 * j"
  proof -
    assume "j \<le> len div 64"
    then have "64 * j \<le> 64 * (len div 64)" by simp
    also have "\<dots> \<le> len" by simp
    finally show ?thesis by (simp add: min_def)
  qed
  have "M_bytes (nth_block data len j) ! k =
     (if marked (nth_block data len j) \<and> k = msgblk_len (nth_block data len j) then 0x80
      else if k < msgblk_len (nth_block data len j) then drop (min len (64 * j)) data ! k
      else 0)"
    unfolding nth_block_def by (rule nth_M_bytes_msg_block) (rule assms)
  then show ?thesis
    using assms dp by (auto simp: marked_nth_block msgblk_len_nth_block)
qed

lemma M_bytes_data_block:
  assumes "len \<le> length data" "j < len div 64"
  shows "M_bytes (nth_block data len j) = take 64 (drop (64 * j) data)"
proof (rule nth_equalityI)
  have "64 * j + 64 \<le> len" using assms(2) by (simp add: less_eq_div_iff_mult_less_eq) 
  then show "length (M_bytes (nth_block data len j)) = length (take 64 (drop (64 * j) data))"
    using assms(1) by (simp add: nth_block_def length_M_bytes_msg_block)
next
  fix k assume "k < length (M_bytes (nth_block data len j))"
  then have k: "k < 64" by (simp add: nth_block_def length_M_bytes_msg_block)
  have "j < block_count len" using assms(2) div_lt_block_count [of len] by simp
  then show "M_bytes (nth_block data len j) ! k = take 64 (drop (64 * j) data) ! k"
    using k assms(2) by (simp add: nth_M_bytes_nth_block)
qed

lemma M_bytes_marker_block:
  assumes "len \<le> length data"
  shows "M_bytes (nth_block data len (len div 64)) =
     take (len mod 64) (drop (64 * (len div 64)) data) @ 0x80 # replicate (63 - len mod 64) 0"
proof (rule nth_equalityI)
  have "64 * (len div 64) + len mod 64 \<le> length data" using assms by simp
  then have "len mod 64 \<le> length data - 64 * (len div 64)" by linarith
  then have l: "length (take (len mod 64) (drop (64 * (len div 64)) data)) = len mod 64"
    by (simp only: length_take length_drop min_absorb2)
  show "length (M_bytes (nth_block data len (len div 64))) =
        length (take (len mod 64) (drop (64 * (len div 64)) data) @ 0x80 # replicate (63 - len mod 64) 0)"
    unfolding length_append l by (simp add: nth_block_def length_M_bytes_msg_block)
  fix k assume "k < length (M_bytes (nth_block data len (len div 64)))"
  then have k: "k < 64" by (simp add: nth_block_def length_M_bytes_msg_block)
  show "M_bytes (nth_block data len (len div 64)) ! k =
        (take (len mod 64) (drop (64 * (len div 64)) data) @ 0x80 # replicate (63 - len mod 64) 0) ! k"
  proof (cases "len mod 64 < k")
    case True
    then have "k - Suc (len mod 64) < 63 - len mod 64" using k by linarith
    then have "replicate (63 - len mod 64) (0::u8) ! (k - Suc (len mod 64)) = 0"
      by (rule nth_replicate)
    with True k l show ?thesis
      by (simp add: nth_M_bytes_nth_block div_lt_block_count nth_append nth_Cons')
  next
    case False
    with k l show ?thesis
      by (auto simp: nth_M_bytes_nth_block div_lt_block_count nth_append nth_Cons')
  qed
qed

lemma M_bytes_padding_block:
  assumes "len div 64 < j" "j < block_count len"
  shows "M_bytes (nth_block data len j) = replicate 64 0"
proof (rule nth_equalityI)
  show "length (M_bytes (nth_block data len j)) = length (replicate 64 (0::u8))"
    by (simp add: nth_block_def length_M_bytes_msg_block)
  fix k assume "k < length (M_bytes (nth_block data len j))"
  then have k: "k < 64" by (simp add: nth_block_def length_M_bytes_msg_block)
  then show "M_bytes (nth_block data len j) ! k = replicate 64 (0::u8) ! k"
    using assms by (simp add: nth_M_bytes_nth_block)
qed

lemma M_bytes_aligned_block:
  assumes "len mod 64 = 0"
  shows "M_bytes (nth_block data len (len div 64)) = 0x80 # replicate 63 0"
proof (rule nth_equalityI)
  show "length (M_bytes (nth_block data len (len div 64))) = length (0x80 # replicate 63 (0::u8))"
    by (simp add: nth_block_def length_M_bytes_msg_block)
  fix k assume "k < length (M_bytes (nth_block data len (len div 64)))"
  then have k: "k < 64" by (simp add: nth_block_def length_M_bytes_msg_block)
  then have "k - 1 < 63 \<or> k = 0" by linarith
  then show "M_bytes (nth_block data len (len div 64)) ! k = (0x80 # replicate 63 0) ! k"
    using k assms by (auto simp: nth_M_bytes_nth_block div_lt_block_count nth_Cons')
qed

lemma length_M_nth_block: "length (M (nth_block data len j)) = 16"
  by (simp add: nth_block_def length_M_msg_block)

lemma block_count_aligned: "len mod 64 = 0 \<Longrightarrow> block_count len = len div 64 + 1"
  by (simp add: block_count_def)

lemma sum_list_const: "(\<And>x. x \<in> set xs \<Longrightarrow> f x = c) \<Longrightarrow> sum_list (map f xs) = c * length xs" for c :: nat
  by (induction xs) auto

section \<open>Macros, schedule and rounds: lemmas\<close>

lemma ROTR_rotr: "0 < n \<Longrightarrow> n < 32 \<Longrightarrow> ROTR x n = rotr x n"
  unfolding ROTR_def rotr_def
proof (rule bit_word_eqI)
  fix k :: nat
  assume n: "0 < n" "n < 32" and k: "k < LENGTH(32)"
  show "bit (drop_bit n x OR push_bit (32 - n) x) k = bit (word_rotr n x) k"
  proof (cases "n + k < 32")
    case True
    then have "(k + n) mod 32 = n + k" by (simp add: add.commute)
    with True n k show ?thesis by (auto simp: bit_simps add.commute)
  next
    case False
    then have m: "(k + n) mod 32 = n + k - 32" using n k by (simp add: le_mod_geq add.commute)
    have nb: "\<not> bit x (n + k)" using False bit_imp_le_length [of x "n + k"] by auto
    have "k - (32 - n) = n + k - 32" using False n by simp
    with False n k m nb show ?thesis by (auto simp: bit_simps)
  qed
qed

lemma s0_sigma0: "s0 x = sigma0 x"
  by (simp add: s0_def sigma0_def ROTR_rotr)

lemma s1_sigma1: "s1 x = sigma1 x"
  by (simp add: s1_def sigma1_def ROTR_rotr)

lemma e0_Sigma0: "e0 x = Sigma0 x"
  by (simp add: e0_def Sigma0_def ROTR_rotr)

lemma e1_Sigma1: "e1 x = Sigma1 x"
  by (simp add: e1_def Sigma1_def ROTR_rotr)

lemma length_copy_loop: "length (copy_loop W Mw t) = length W"
  by (induction W Mw t rule: copy_loop.induct) (subst copy_loop.simps, simp)

lemma copy_loop_below: "j < t \<Longrightarrow> copy_loop W Mw t ! j = W ! j"
  by (induction W Mw t rule: copy_loop.induct) (subst copy_loop.simps, simp)

lemma copy_loop_copied:
  "t \<le> j \<Longrightarrow> j < 16 \<Longrightarrow> j < length W \<Longrightarrow> copy_loop W Mw t ! j = Mw ! j"
proof (induction W Mw t rule: copy_loop.induct)
  case (1 W Mw t)
  show ?case
  proof (cases "j = t")
    case True
    with "1.prems" show ?thesis
      by (subst copy_loop.simps) (simp add: copy_loop_below)
  next
    case False
    with "1.prems" "1.IH" show ?thesis
      by (subst copy_loop.simps) simp
  qed
qed

lemma length_expand_loop: "length (expand_loop W t) = length W"
  by (induction W t rule: expand_loop.induct) (subst expand_loop.simps, simp)

lemma expand_loop_below: "j < t \<Longrightarrow> expand_loop W t ! j = W ! j"
  by (induction W t rule: expand_loop.induct) (subst expand_loop.simps, simp)

lemma expand_loop_recurrence:
  "16 \<le> t \<Longrightarrow> t \<le> j \<Longrightarrow> j < 64 \<Longrightarrow> length W = 64 \<Longrightarrow>
   expand_loop W t ! j =
     s1 (expand_loop W t ! (j - 2)) + expand_loop W t ! (j - 7) +
     s0 (expand_loop W t ! (j - 15)) + expand_loop W t ! (j - 16)"
proof (induction W t rule: expand_loop.induct)
  case (1 W t)
  define W' where "W' = W[t := s1 (W ! (t - 2)) + W ! (t - 7) + s0 (W ! (t - 15)) + W ! (t - 16)]"
  have t: "t < 64" using "1.prems" by simp
  have unf: "expand_loop W t = expand_loop W' (t + 1)"
    using t by (subst expand_loop.simps) (simp add: W'_def)
  show ?case
  proof (cases "j = t")
    case True
    have "expand_loop W' (t + 1) ! k = W' ! k" if "k \<le> t" for k
      using that by (simp add: expand_loop_below)
    moreover have "W' ! k = W ! k" if "k < t" for k
      using that by (simp add: W'_def)
    moreover have "W' ! t = s1 (W ! (t - 2)) + W ! (t - 7) + s0 (W ! (t - 15)) + W ! (t - 16)"
      using t "1.prems" by (simp add: W'_def)
    ultimately show ?thesis
      unfolding unf True using "1.prems" by simp
  next
    case False
    then show ?thesis
      unfolding unf using "1.prems" t "1.IH" [OF t] by (simp add: W'_def)
  qed
qed

lemma round_body_spec: "round_body W t v = spec_round (K ! t) (W ! t) v"
  by (cases v) (simp add: round_body_def spec_round_def Let_def e0_Sigma0 e1_Sigma1 CH_def Ch_def MAJ_def Maj_def)

lemma round_loop_foldl:
  "t \<le> 64 \<Longrightarrow> round_loop W t v = foldl (\<lambda>v t. round_body W t v) v [t..<64]"
proof (induction W t v rule: round_loop.induct)
  case (1 W t v)
  show ?case
  proof (cases "t < 64")
    case True
    then have "[t..<64] = t # [t + 1..<64]" by (simp add: upt_conv_Cons)
    with True "1.IH" show ?thesis by (subst round_loop.simps) simp
  next
    case False
    with "1.prems" show ?thesis by (subst round_loop.simps) simp
  qed
qed

lemma schedule_below: "t < 16 \<Longrightarrow> length W0 = 64 \<Longrightarrow> schedule W0 Mw ! t = Mw ! t"
  by (simp add: schedule_def expand_loop_below copy_loop_copied)

lemma schedule_rec:
  "16 \<le> t \<Longrightarrow> t < 64 \<Longrightarrow> length W0 = 64 \<Longrightarrow>
   schedule W0 Mw ! t = s1 (schedule W0 Mw ! (t - 2)) + schedule W0 Mw ! (t - 7) +
                        s0 (schedule W0 Mw ! (t - 15)) + schedule W0 Mw ! (t - 16)"
  unfolding schedule_def
  by (rule expand_loop_recurrence) (simp_all add: length_copy_loop)

lemma length_schedule: "length (schedule W0 Mw) = length W0"
  by (simp add: schedule_def length_expand_loop length_copy_loop)

lemma schedule_initial_contents:
  assumes "length W0 = 64" "length W0' = 64"
  shows "schedule W0 Mw = schedule W0' Mw"
proof (rule nth_equalityI)
  show "length (schedule W0 Mw) = length (schedule W0' Mw)"
    using assms by (simp add: length_schedule)
  fix t assume "t < length (schedule W0 Mw)"
  then have "t < 64" using assms by (simp add: length_schedule)
  then show "schedule W0 Mw ! t = schedule W0' Mw ! t"
  proof (induction t rule: less_induct)
    case (less t)
    show ?case
    proof (cases "t < 16")
      case True
      then show ?thesis using assms by (simp add: schedule_below)
    next
      case False
      then have t: "16 \<le> t" by simp
      have "schedule W0 Mw ! (t - k) = schedule W0' Mw ! (t - k)" if "0 < k" for k
        using that t less.prems by (intro less.IH) simp_all
      then show ?thesis
        using schedule_rec [OF t less.prems assms(1), of Mw]
              schedule_rec [OF t less.prems assms(2), of Mw] by simp
    qed
  qed
qed

section \<open>The range of the size values\<close>

lemma size_t_no_wrap:
  assumes "len < 2 ^ 64"
  shows "block_count len + 1 < 2 ^ 64"
    and "min len (64 * j) \<le> len"
    and "min len (64 * j) + msgblk_len (nth_block data len j) \<le> len"
proof -
  have "len div 64 < 2 ^ 58" using assms by simp
  then show "block_count len + 1 < 2 ^ 64" by (simp add: block_count_def)
  show "min len (64 * j) \<le> len" by simp
  show "min len (64 * j) + msgblk_len (nth_block data len j) \<le> len"
    by (auto simp: nth_block_def msgblk_len_msg_block MIN_macro_def min_def)
qed

section \<open>Byte order\<close>

lemma mask_hi: "(0xff00ff00 :: u32) = push_bit 8 (mask 8) OR push_bit 24 (mask 8)"
  by (simp add: mask_eq_exp_minus_1 push_bit_eq_mult)

lemma mask_lo: "(0x00ff00ff :: u32) = mask 8 OR push_bit 16 (mask 8)"
  by (simp add: mask_eq_exp_minus_1 push_bit_eq_mult)

lemma BYTESWAP_bit:
  "bit (BYTESWAP x) k \<longleftrightarrow> k < 32 \<and> bit x (8 * (3 - k div 8) + k mod 8)"
proof (cases "k < 32")
  case False
  then show ?thesis using bit_imp_le_length [of "BYTESWAP x" k] by auto
next
  case True
  then consider "k < 8" | "8 \<le> k" "k < 16" | "16 \<le> k" "k < 24" | "24 \<le> k" "k < 32"
    by linarith
  then show ?thesis
  proof cases
    case 1
    then have "k div 8 = 0" "k mod 8 = k" by simp_all
    with 1 show ?thesis
      by (auto simp add: BYTESWAP_def ROTR_def ROTL_def mask_hi mask_lo bit_simps add.commute)
  next
    case 2
    then have "k div 8 = 1" "k mod 8 = k - 8" by (simp_all add: le_mod_geq div_nat_eqI)
    with 2 show ?thesis
      using bit_imp_le_length [of x "k + 24"] bit_imp_le_length [of x "k + 8"]
      by (auto simp add: BYTESWAP_def ROTR_def ROTL_def mask_hi mask_lo bit_simps add.commute)
  next
    case 3
    then have "k div 8 = 2" "k mod 8 = k - 16" by (simp_all add: div_nat_eqI mod_nat_eqI)
    with 3 show ?thesis
      using bit_imp_le_length [of x "k + 24"] bit_imp_le_length [of x "k + 8"]
      by (auto simp add: BYTESWAP_def ROTR_def ROTL_def mask_hi mask_lo bit_simps add.commute)
  next
    case 4
    then have "k div 8 = 3" "k mod 8 = k - 24" by (simp_all add: div_nat_eqI mod_nat_eqI)
    with 4 show ?thesis
      using bit_imp_le_length [of x "k + 24"] bit_imp_le_length [of x "k + 8"]
      by (auto simp add: BYTESWAP_def ROTR_def ROTL_def mask_hi mask_lo bit_simps add.commute)
  qed
qed

lemma bit_le_bytes:
  "bit (ucast (b0::u8) OR push_bit 8 (ucast (b1::u8)) OR push_bit 16 (ucast (b2::u8))
        OR push_bit 24 (ucast (b3::u8)) :: u32) k \<longleftrightarrow>
   (if k < 8 then bit b0 k else if k < 16 then bit b1 (k - 8)
    else if k < 24 then bit b2 (k - 16) else k < 32 \<and> bit b3 (k - 24))"
  using bit_imp_le_length [of b0 k] bit_imp_le_length [of b1 "k - 8"]
        bit_imp_le_length [of b2 "k - 16"] bit_imp_le_length [of b3 "k - 24"]
  by (auto simp: bit_simps)

lemma bit_be_bytes:
  "bit (push_bit 24 (ucast (b0::u8)) OR push_bit 16 (ucast (b1::u8)) OR push_bit 8 (ucast (b2::u8))
        OR ucast (b3::u8) :: u32) k \<longleftrightarrow>
   (if k < 8 then bit b3 k else if k < 16 then bit b2 (k - 8)
    else if k < 24 then bit b1 (k - 16) else k < 32 \<and> bit b0 (k - 24))"
  using bit_imp_le_length [of b3 k] bit_imp_le_length [of b2 "k - 8"]
        bit_imp_le_length [of b1 "k - 16"] bit_imp_le_length [of b0 "k - 24"]
  by (auto simp: bit_simps)


lemma BYTESWAP_load_le: "BYTESWAP (load_le bs w) = load_be bs w"
proof (rule bit_word_eqI)
  fix k :: nat
  assume "k < LENGTH(32)"
  then have "k < 32" by simp
  then consider "k < 8" | "8 \<le> k" "k < 16" | "16 \<le> k" "k < 24" | "24 \<le> k" "k < 32"
    by linarith
  then show "bit (BYTESWAP (load_le bs w)) k = bit (load_be bs w) k"
  proof cases
    case 1
    then have "k div 8 = 0" "k mod 8 = k" by simp_all
    then have B: "bit (BYTESWAP x) k = bit x (k + 24)" for x
      using 1 by (simp add: BYTESWAP_bit add.commute)
    from 1 show ?thesis
      unfolding B load_le_def load_be_def bit_le_bytes bit_be_bytes by simp
  next
    case 2
    then have "k div 8 = 1" "k mod 8 = k - 8" by (simp_all add: le_mod_geq div_nat_eqI)
    then have B: "bit (BYTESWAP x) k = bit x (k + 8)" for x
      using 2 by (simp add: BYTESWAP_bit add.commute)
    from 2 show ?thesis
      unfolding B load_le_def load_be_def bit_le_bytes bit_be_bytes by simp
  next
    case 3
    then have "k div 8 = 2" "k mod 8 = k - 16" by (simp_all add: div_nat_eqI mod_nat_eqI)
    then have B: "bit (BYTESWAP x) k = bit x (k - 8)" for x
      using 3 by (simp add: BYTESWAP_bit)
    have "\<not> k - 8 < 8" "k - 8 < 16" "k - 8 - 8 = k - 16" using 3 by simp_all
    with 3 show ?thesis
      unfolding B load_le_def load_be_def bit_le_bytes bit_be_bytes by simp
  next
    case 4
    then have "k div 8 = 3" "k mod 8 = k - 24" by (simp_all add: div_nat_eqI mod_nat_eqI)
    then have B: "bit (BYTESWAP x) k = bit x (k - 24)" for x
      using 4 by (simp add: BYTESWAP_bit)
    have "k - 24 < 8" using 4 by simp
    with 4 show ?thesis
      unfolding B load_le_def load_be_def bit_le_bytes bit_be_bytes by simp
  qed
qed

lemma ucast_drop_BYTESWAP:
  assumes "c < 4"
  shows "(ucast (drop_bit (8 * c) (BYTESWAP x)) :: u8) = ucast (drop_bit (8 * (3 - c)) x)"
proof (rule bit_word_eqI)
  fix k :: nat
  assume "k < LENGTH(8)"
  then have k: "k < 8" by simp
  then have "(8 * c + k) div 8 = c" "(8 * c + k) mod 8 = k" by simp_all
  then show "bit (ucast (drop_bit (8 * c) (BYTESWAP x)) :: u8) k =
             bit (ucast (drop_bit (8 * (3 - c)) x) :: u8) k"
    using k assms by (simp add: bit_simps BYTESWAP_bit)
qed

lemma store_le_BYTESWAP: "store_le (BYTESWAP x) = store_be x"
  using ucast_drop_BYTESWAP [of 0 x] ucast_drop_BYTESWAP [of 1 x]
        ucast_drop_BYTESWAP [of 2 x] ucast_drop_BYTESWAP [of 3 x]
  by (simp add: store_le_def store_be_def)

lemma M_msg_block_word_be:
  "w < 16 \<Longrightarrow> i \<noteq> N \<or> w < 14 \<Longrightarrow>
   M (msg_block data len N i dp) ! w = load_be (M_bytes (msg_block data len N i dp)) w"
  by (simp only: M_msg_block_word BYTESWAP_load_le)

section \<open>Inputs of length zero, and two digests\<close>

lemma msg_block_len0: "msg_block data 0 N i 0 = msg_block [] 0 N i 0"
proof -
  have n: "MIN_macro (0 - 0) 64 = 0" by (simp add: MIN_macro_def)
  show ?thesis
    unfolding msg_block_def Let_def n by (simp only: less_nat_zero_code if_False)
qed

lemma nth_block_len0: "nth_block data 0 = nth_block [] 0"
  by (rule ext) (simp only: nth_block_def min_0L msg_block_len0 [of data])

lemma sha256_trace_len0: "sha256_trace data 0 = sha256_trace [] 0"
  by (simp only: sha256_trace_map nth_block_len0 [of data])

lemma sha256_md_trace:
  "sha256_md data len =
     concat (map (\<lambda>x. store_le (BYTESWAP x))
       (foldl (\<lambda>H blk. process_block H (M blk)) H_init (sha256_trace data len)))"
  by (simp add: sha256_md_def sha256_loop_foldl sha256_trace_def)

lemma length_process_block: "length (process_block H Mw) = 8"
  by (simp add: process_block_def Let_def split: prod.splits)

lemma length_foldl_process_block:
  "length H = 8 \<Longrightarrow> length (foldl (\<lambda>H blk. process_block H (M blk)) H bs) = 8"
  by (induction bs arbitrary: H) (simp_all add: length_process_block)

lemma length_concat_store_le:
  "length (concat (map (\<lambda>x. store_le (BYTESWAP x)) H)) = 4 * length H"
  by (induction H) (simp_all add: store_le_def)

lemma length_sha256_md: "length (sha256_md data len) = 32"
  by (simp add: sha256_md_trace length_concat_store_le length_foldl_process_block H_init_def)

lemma sha256_md_big_endian:
  "sha256_md data len =
     concat (map store_be
       (foldl (\<lambda>H blk. process_block H (M blk)) H_init (sha256_trace data len)))"
  by (simp add: sha256_md_trace store_le_BYTESWAP)

lemma sha256_hashes_trace:
  "md (snd (sha256 s data len)) =
     concat (map store_be
       (foldl (\<lambda>H blk. process_block H (M blk)) H_init (sha256_trace data len)))"
  by (simp add: sha256_def sha256_md_big_endian)

lemma sha256_md_len0: "sha256_md data 0 = sha256_md [] 0"
  by (simp only: sha256_md_trace sha256_trace_len0 [of data])

lemma sha256_trace_empty:
  "sha256_trace [] 0 =
     [\<lparr>msgblk_len = 0, marked = True, M_bytes = 0x80 # replicate 63 0,
       M = 0x80000000 # replicate 15 0\<rparr>]"
  by code_simp

lemma sha256_md_empty:
  "sha256_md [] 0 =
    digest_empty"
  by code_simp

lemma sha256_md_abc:
  "sha256_md [0x61, 0x62, 0x63] 3 =
    digest_abc"
  by code_simp


section \<open>The claims of the specification\<close>

text \<open>
  C1. For the empty input (\<open>len = 0\<close>, whatever \<open>data\<close> points to) \<^verbatim>\<open>sha256\<close>
  returns the pointer to \<^verbatim>\<open>md\<close>, which then holds the digest
  \<open>e3b0c44298fc1c149afbf4c8996fb92427ae41e4649b934ca495991b7852b855\<close>. The loop prepares a
  single block: nothing is copied, the marker \<open>0x80\<close> is stored at byte 0, and the words
  of the block are \<open>0x80000000\<close> followed by 15 zero words, so that the last two words (the
  final 8 bytes) encode the bit length 0.
\<close>

theorem sha256_empty_input:
  "sha256 s data 0 =
     (Static_md, s\<lparr>md :=
       digest_empty\<rparr>) \<and>
   deref (snd (sha256 s data 0)) (fst (sha256 s data 0)) =
     Some digest_empty \<and>
   sha256_trace data 0 =
     [\<lparr>msgblk_len = 0, marked = True, M_bytes = 0x80 # replicate 63 0,
       M = 0x80000000 # replicate 15 0\<rparr>]"
  by (simp add: sha256_def sha256_md_len0 [of data] sha256_md_empty
        sha256_trace_len0 [of data] sha256_trace_empty)

text \<open>
  C2. For the three bytes \<open>0x61 0x62 0x63\<close> (the ASCII string abc) and \<open>len = 3\<close>,
  \<^verbatim>\<open>sha256\<close> returns the pointer to \<^verbatim>\<open>md\<close>, which then holds the digest
  \<open>ba7816bf8f01cfea414140de5dae2223b00361a396177a9cb410ff61f20015ad\<close>.
\<close>

theorem sha256_abc:
  "sha256 s [0x61, 0x62, 0x63] 3 =
     (Static_md, s\<lparr>md :=
       digest_abc\<rparr>) \<and>
   deref (snd (sha256 s [0x61, 0x62, 0x63] 3)) (fst (sha256 s [0x61, 0x62, 0x63] 3)) =
     Some digest_abc"
  by (simp add: sha256_def sha256_md_abc)

text \<open>
  C3. The digest that \<^verbatim>\<open>sha256\<close> leaves in \<^verbatim>\<open>md\<close> is the big-endian
  serialisation of the hash value obtained by running \<open>process_block\<close>, from \<open>H_init\<close>,
  over the blocks of \<open>sha256_trace data len\<close> in order: these are the blocks the function
  processes. For every input byte length \<open>len\<close> their number is
  \<open>len div 64 + 1 + (if len mod 64 \<ge> 56 then 1 else 0)\<close>.
  When \<open>len\<close> is a multiple of 64 the count is \<open>len div 64 + 1\<close>: the first
  \<open>len div 64\<close> blocks are full of data and carry no marker, and the last block is a
  dedicated padding block: nothing is copied into it and its bytes are the marker \<open>0x80\<close>
  followed by 63 zero bytes (before the length field is written into its last two words).
\<close>

theorem sha256_block_count:
  "md (snd (sha256 s data len)) =
     concat (map store_be
       (foldl (\<lambda>H blk. process_block H (M blk)) H_init (sha256_trace data len))) \<and>
   length (sha256_trace data len) = len div 64 + 1 + (if len mod 64 \<ge> 56 then 1 else 0) \<and>
   (len mod 64 = 0 \<longrightarrow>
      length (sha256_trace data len) = len div 64 + 1 \<and>
      (\<forall>j < len div 64. msgblk_len (sha256_trace data len ! j) = 64 \<and>
                         \<not> marked (sha256_trace data len ! j)) \<and>
      msgblk_len (last (sha256_trace data len)) = 0 \<and>
      marked (last (sha256_trace data len)) \<and>
      M_bytes (last (sha256_trace data len)) = 0x80 # replicate 63 0)"
proof -
  have link: "md (snd (sha256 s data len)) =
     concat (map store_be
       (foldl (\<lambda>H blk. process_block H (M blk)) H_init (sha256_trace data len)))"
    by (rule sha256_hashes_trace)
  have n: "length (sha256_trace data len) = len div 64 + 1 + (if len mod 64 \<ge> 56 then 1 else 0)"
    by (simp add: length_sha256_trace block_count_def)
  have aligned: "length (sha256_trace data len) = len div 64 + 1 \<and>
      (\<forall>j < len div 64. msgblk_len (sha256_trace data len ! j) = 64 \<and>
                         \<not> marked (sha256_trace data len ! j)) \<and>
      msgblk_len (last (sha256_trace data len)) = 0 \<and>
      marked (last (sha256_trace data len)) \<and>
      M_bytes (last (sha256_trace data len)) = 0x80 # replicate 63 0"
    if al: "len mod 64 = 0"
  proof -
    have N: "block_count len = len div 64 + 1" using al by (rule block_count_aligned)
    then have la: "last (sha256_trace data len) = nth_block data len (len div 64)"
      by (simp add: last_sha256_trace)
    have "msgblk_len (sha256_trace data len ! j) = 64 \<and> \<not> marked (sha256_trace data len ! j)"
      if "j < len div 64" for j
      using that N by (simp add: nth_sha256_trace msgblk_len_nth_block marked_nth_block)
    moreover have "msgblk_len (nth_block data len (len div 64)) = 0"
      using al by (simp add: msgblk_len_nth_block)
    moreover have "marked (nth_block data len (len div 64))"
      by (simp add: marked_nth_block div_lt_block_count)
    ultimately show ?thesis
      unfolding la using N al by (simp add: length_sha256_trace M_bytes_aligned_block)
  qed
  show ?thesis
  proof (intro conjI impI)
    show "md (snd (sha256 s data len)) =
     concat (map store_be
       (foldl (\<lambda>H blk. process_block H (M blk)) H_init (sha256_trace data len)))"
      by (rule link)
    show "length (sha256_trace data len) = len div 64 + 1 + (if len mod 64 \<ge> 56 then 1 else 0)"
      by (rule n)
  qed (use aligned in simp_all)
qed

theorem sha256_block_count_witness:
  "md (snd (sha256 \<lparr>md = []\<rparr> (replicate 64 0x61) 64)) =
     concat (map store_be
       (foldl (\<lambda>H blk. process_block H (M blk)) H_init (sha256_trace (replicate 64 0x61) 64))) \<and>
   length (sha256_trace (replicate 64 0x61) 64) = 2 \<and>
   msgblk_len (sha256_trace (replicate 64 0x61) 64 ! 0) = 64 \<and>
   \<not> marked (sha256_trace (replicate 64 0x61) 64 ! 0) \<and>
   msgblk_len (last (sha256_trace (replicate 64 0x61) 64)) = 0 \<and>
   marked (last (sha256_trace (replicate 64 0x61) 64)) \<and>
   M_bytes (last (sha256_trace (replicate 64 0x61) 64)) = 0x80 # replicate 63 0"
  using sha256_block_count [of "\<lparr>md = []\<rparr>" "replicate 64 0x61" 64] by simp

text \<open>
  C4. For every block, the array \<open>W\<close> that the two schedule loops leave behind has 64
  words, \<open>W[t] = M[t]\<close> for \<open>0 \<le> t \<le> 15\<close>, and
  \<open>W[t] = \<sigma>1(W[t-2]) + W[t-7] + \<sigma>0(W[t-15]) + W[t-16]\<close> for \<open>16 \<le> t \<le> 63\<close>, where the
  addition is addition modulo \<open>2^32\<close> and the macros \<^verbatim>\<open>s0\<close>, \<^verbatim>\<open>s1\<close> are
  \<open>\<sigma>0(x) = rotr(x,7) XOR rotr(x,18) XOR (x >> 3)\<close> and
  \<open>\<sigma>1(x) = rotr(x,17) XOR rotr(x,19) XOR (x >> 10)\<close>, with \<open>rotr\<close> the rotation of a
  32-bit word. \<open>W0\<close> is what the array holds on entry; \<open>process_block\<close> calls the
  schedule with an array of 64 words.
\<close>

theorem schedule_recurrence:
  assumes "length W0 = 64"
  shows "length (schedule W0 Mw) = 64 \<and>
    (\<forall>t. t \<le> 15 \<longrightarrow> schedule W0 Mw ! t = Mw ! t) \<and>
    (\<forall>t. 16 \<le> t \<and> t \<le> 63 \<longrightarrow>
       schedule W0 Mw ! t =
         sigma1 (schedule W0 Mw ! (t - 2)) + schedule W0 Mw ! (t - 7) +
         sigma0 (schedule W0 Mw ! (t - 15)) + schedule W0 Mw ! (t - 16)) \<and>
    (\<forall>x. s0 x = word_rotr 7 x XOR word_rotr 18 x XOR drop_bit 3 x) \<and>
    (\<forall>x. s1 x = word_rotr 17 x XOR word_rotr 19 x XOR drop_bit 10 x) \<and>
    (\<forall>x y :: u32. unat (x + y) = (unat x + unat y) mod 2 ^ 32)"
proof (intro conjI allI impI)
  show "length (schedule W0 Mw) = 64" using assms by (simp add: length_schedule)
next
  fix t :: nat assume "t \<le> 15"
  then show "schedule W0 Mw ! t = Mw ! t" using assms by (simp add: schedule_below)
next
  fix t :: nat assume "16 \<le> t \<and> t \<le> 63"
  then show "schedule W0 Mw ! t =
         sigma1 (schedule W0 Mw ! (t - 2)) + schedule W0 Mw ! (t - 7) +
         sigma0 (schedule W0 Mw ! (t - 15)) + schedule W0 Mw ! (t - 16)"
    using assms schedule_rec [of t W0 Mw] by (simp add: s0_sigma0 s1_sigma1)
next
  fix x :: u32
  show "s0 x = word_rotr 7 x XOR word_rotr 18 x XOR drop_bit 3 x"
    by (simp add: s0_sigma0 sigma0_def rotr_def)
  show "s1 x = word_rotr 17 x XOR word_rotr 19 x XOR drop_bit 10 x"
    by (simp add: s1_sigma1 sigma1_def rotr_def)
next
  fix x y :: u32
  show "unat (x + y) = (unat x + unat y) mod 2 ^ 32"
    by (simp add: unat_word_ariths)
qed

theorem schedule_recurrence_witness:
  "length (replicate 64 (0::u32)) = 64 \<and>
   length (schedule (replicate 64 0) (0x80000000 # replicate 15 0)) = 64 \<and>
   schedule (replicate 64 0) (0x80000000 # replicate 15 0) ! 0 = 0x80000000 \<and>
   schedule (replicate 64 0) (0x80000000 # replicate 15 0) ! 16 = 0x80000000"
proof -
  let ?W = "schedule (replicate 64 0) (0x80000000 # replicate 15 0)"
  have len: "length (replicate 64 (0::u32)) = 64" by simp
  note th = schedule_recurrence [OF len, of "0x80000000 # replicate 15 0"]
  from th have lo: "t \<le> 15 \<Longrightarrow> ?W ! t = (0x80000000 # replicate 15 0) ! t" for t
    by blast
  from th have "16 \<le> (16::nat) \<and> (16::nat) \<le> 63 \<longrightarrow>
      ?W ! 16 = sigma1 (?W ! (16 - 2)) + ?W ! (16 - 7) + sigma0 (?W ! (16 - 15)) + ?W ! (16 - 16)"
    by blast
  then have "?W ! 16 = sigma1 (?W ! 14) + ?W ! 9 + sigma0 (?W ! 1) + ?W ! 0"
    by simp
  moreover have "sigma0 0 = 0" "sigma1 0 = 0"
    by (simp_all add: s0_sigma0 [symmetric] s1_sigma1 [symmetric] s0_def s1_def ROTR_def)
  ultimately have "?W ! 16 = 0x80000000"
    by (simp add: lo)
  with th len show ?thesis by (simp add: lo)
qed

text \<open>
  C5. One pass through the body of the round loop computes
  \<open>T1 = h + \<Sigma>1(e) + Ch(e,f,g) + K[t] + W[t]\<close> and \<open>T2 = \<Sigma>0(a) + Maj(a,b,c)\<close> and
  leaves \<open>(T1 + T2, a, b, c, d + T1, e, f, g)\<close> in \<open>(a, b, c, d, e, f, g, h)\<close>; the
  loop runs the body for \<open>t = 0, \<dots>, 63\<close> in order; \<open>process_block\<close> starts the rounds
  from \<open>H[0..7]\<close> and adds the resulting \<open>a..h\<close> to \<open>H[0..7]\<close>; every addition is
  modulo \<open>2^32\<close>.
\<close>

theorem compression_rounds:
  "round_body W t (a, b, c, d, e, f, g, h) =
     (let T1 = h + Sigma1 e + Ch e f g + K ! t + W ! t;
          T2 = Sigma0 a + Maj a b c
      in (T1 + T2, a, b, c, d + T1, e, f, g)) \<and>
   round_loop W 0 v = foldl (\<lambda>v t. round_body W t v) v [0..<64] \<and>
   process_block H Mw =
     (case round_loop (schedule (replicate 64 0) Mw) 0
             (H ! 0, H ! 1, H ! 2, H ! 3, H ! 4, H ! 5, H ! 6, H ! 7) of
        (a', b', c', d', e', f', g', h') \<Rightarrow>
          [H ! 0 + a', H ! 1 + b', H ! 2 + c', H ! 3 + d',
           H ! 4 + e', H ! 5 + f', H ! 6 + g', H ! 7 + h']) \<and>
   (\<forall>x y :: u32. unat (x + y) = (unat x + unat y) mod 2 ^ 32)"
proof (intro conjI allI)
  show "round_body W t (a, b, c, d, e, f, g, h) =
     (let T1 = h + Sigma1 e + Ch e f g + K ! t + W ! t;
          T2 = Sigma0 a + Maj a b c
      in (T1 + T2, a, b, c, d + T1, e, f, g))"
    by (simp add: round_body_spec spec_round_def)
  show "round_loop W 0 v = foldl (\<lambda>v t. round_body W t v) v [0..<64]"
    by (rule round_loop_foldl) simp
  show "process_block H Mw =
     (case round_loop (schedule (replicate 64 0) Mw) 0
             (H ! 0, H ! 1, H ! 2, H ! 3, H ! 4, H ! 5, H ! 6, H ! 7) of
        (a', b', c', d', e', f', g', h') \<Rightarrow>
          [H ! 0 + a', H ! 1 + b', H ! 2 + c', H ! 3 + d',
           H ! 4 + e', H ! 5 + f', H ! 6 + g', H ! 7 + h'])"
    by (simp add: process_block_def Let_def)
  show "unat (x + y) = (unat x + unat y) mod 2 ^ 32" for x y :: u32
    by (simp add: unat_word_ariths)
qed

text \<open>
  C6. The digest that \<^verbatim>\<open>sha256\<close> leaves in \<^verbatim>\<open>md\<close> is the hash value of the blocks
  of \<open>sha256_trace data len\<close>, processed in order, so these blocks are the padded message
  the function hashes. For every input, the loop prepares \<open>block_count len\<close> blocks of 16 words each, so
  the padded message has \<open>64 * block_count len\<close> bytes, and words 14 and 15 of the final
  block are the high and the low 32 bits of the 64-bit value \<^verbatim>\<open>( uint64_t ) len * 8\<close>.
  For an input of the data model (\<open>len < 2^61\<close>, so that \<open>len * 8\<close> fits in 64 bits)
  the two words together are exactly \<open>len * 8\<close>.
\<close>

theorem length_field_final_block:
  "md (snd (sha256 s data len)) =
     concat (map store_be
       (foldl (\<lambda>H blk. process_block H (M blk)) H_init (sha256_trace data len))) \<and>
   length (sha256_trace data len) = block_count len \<and>
   (\<forall>j < length (sha256_trace data len). length (M (sha256_trace data len ! j)) = 16) \<and>
   (\<Sum>blk\<leftarrow>sha256_trace data len. 4 * length (M blk)) = 64 * block_count len \<and>
   M (last (sha256_trace data len)) ! 14 = ucast (drop_bit 32 (of_nat len * 8 :: u64)) \<and>
   M (last (sha256_trace data len)) ! 15 = ucast (of_nat len * 8 :: u64) \<and>
   (len < 2 ^ 61 \<longrightarrow>
      unat (M (last (sha256_trace data len)) ! 14) * 2 ^ 32 +
      unat (M (last (sha256_trace data len)) ! 15) = len * 8)"
proof (intro conjI allI impI)
  show "md (snd (sha256 s data len)) =
     concat (map store_be
       (foldl (\<lambda>H blk. process_block H (M blk)) H_init (sha256_trace data len)))"
    by (rule sha256_hashes_trace)
  show "length (sha256_trace data len) = block_count len"
    by (rule length_sha256_trace)
  show "length (M (sha256_trace data len ! j)) = 16" if "j < length (sha256_trace data len)" for j
    using that by (simp add: length_sha256_trace nth_sha256_trace length_M_nth_block)
  have "4 * length (M blk) = 64" if "blk \<in> set (sha256_trace data len)" for blk
    using that by (auto simp: sha256_trace_map length_M_nth_block)
  then have "(\<Sum>blk\<leftarrow>sha256_trace data len. 4 * length (M blk)) = 64 * length (sha256_trace data len)"
    by (rule sum_list_const)
  then show "(\<Sum>blk\<leftarrow>sha256_trace data len. 4 * length (M blk)) = 64 * block_count len"
    by (simp add: length_sha256_trace)
  show "M (last (sha256_trace data len)) ! 14 = ucast (drop_bit 32 (of_nat len * 8 :: u64))"
    using M_last_block [of data len] by (simp add: bitlen_def)
  show "M (last (sha256_trace data len)) ! 15 = ucast (of_nat len * 8 :: u64)"
    using M_last_block [of data len] by (simp add: bitlen_def)
  assume "len < 2 ^ 61"
  then have "(len * 8) mod 2 ^ 64 = len * 8" by simp
  then show "unat (M (last (sha256_trace data len)) ! 14) * 2 ^ 32 +
      unat (M (last (sha256_trace data len)) ! 15) = len * 8"
    using M_last_block [of data len] split_u64 [of "bitlen len"] unat_bitlen [of len]
    by simp
qed

theorem length_field_final_block_witness:
  "md (snd (sha256 \<lparr>md = []\<rparr> [0x61, 0x62, 0x63] 3)) =
     concat (map store_be
       (foldl (\<lambda>H blk. process_block H (M blk)) H_init (sha256_trace [0x61, 0x62, 0x63] 3))) \<and>
   length (sha256_trace [0x61, 0x62, 0x63] 3) = 1 \<and>
   length (M (sha256_trace [0x61, 0x62, 0x63] 3 ! 0)) = 16 \<and>
   M (last (sha256_trace [0x61, 0x62, 0x63] 3)) ! 14 = 0 \<and>
   M (last (sha256_trace [0x61, 0x62, 0x63] 3)) ! 15 = 24 \<and>
   unat (M (last (sha256_trace [0x61, 0x62, 0x63] 3)) ! 14) * 2 ^ 32 +
   unat (M (last (sha256_trace [0x61, 0x62, 0x63] 3)) ! 15) = 3 * 8"
proof -
  have N: "block_count 3 = 1" by (simp add: block_count_def)
  have "(3::nat) < 2 ^ 61" by simp
  with length_field_final_block [of "\<lparr>md = []\<rparr>" "[0x61, 0x62, 0x63]" 3] N show ?thesis
    by simp
qed

text \<open>
  C7. The digest that \<^verbatim>\<open>sha256\<close> leaves in \<^verbatim>\<open>md\<close> is the hash value of the blocks
  of \<open>sha256_trace data len\<close>, processed in order, so these blocks are the padded message
  the function hashes. For every input (a buffer that holds at least \<open>len\<close> bytes), exactly
  one of these blocks receives the marker store: the block with index \<open>len div 64\<close>
  (counted from 0). Its copy length is \<open>len mod 64\<close> and its bytes are the
  \<open>len mod 64\<close> remaining data bytes, then \<open>0x80\<close>, then zeros up to the end of the
  block; so the marker is at byte 0 when the input is empty or a multiple of 64 bytes long.
  The blocks before it are 64 data bytes each, a block after it is 64 zero bytes. When the
  marker block is the final block, the marker lies before byte 56; the words of every block
  are its bytes read as big-endian words, except for words 14 and 15 of the final block (the
  length field). Hence all bytes after the marker up to the length field are zero.
\<close>

theorem single_padding_marker:
  assumes "len \<le> length data"
  shows "md (snd (sha256 s data len)) =
     concat (map store_be
       (foldl (\<lambda>H blk. process_block H (M blk)) H_init (sha256_trace data len))) \<and>
    length (filter marked (sha256_trace data len)) = 1 \<and>
    len div 64 < length (sha256_trace data len) \<and>
    (\<forall>j < length (sha256_trace data len). marked (sha256_trace data len ! j) \<longleftrightarrow> j = len div 64) \<and>
    msgblk_len (sha256_trace data len ! (len div 64)) = len mod 64 \<and>
    M_bytes (sha256_trace data len ! (len div 64)) =
      take (len mod 64) (drop (64 * (len div 64)) data) @ 0x80 # replicate (63 - len mod 64) 0 \<and>
    (len mod 64 = 0 \<longrightarrow> M_bytes (sha256_trace data len ! (len div 64)) ! 0 = 0x80) \<and>
    (Suc (len div 64) = length (sha256_trace data len) \<longrightarrow> len mod 64 < 56) \<and>
    (\<forall>j < len div 64. M_bytes (sha256_trace data len ! j) = take 64 (drop (64 * j) data)) \<and>
    (\<forall>j < length (sha256_trace data len). len div 64 < j \<longrightarrow>
        M_bytes (sha256_trace data len ! j) = replicate 64 0) \<and>
    (\<forall>j < length (sha256_trace data len). \<forall>w < 16.
        Suc j \<noteq> length (sha256_trace data len) \<or> w < 14 \<longrightarrow>
        M (sha256_trace data len ! j) ! w = load_be (M_bytes (sha256_trace data len ! j)) w)"
proof (intro conjI allI impI)
  show "md (snd (sha256 s data len)) =
     concat (map store_be
       (foldl (\<lambda>H blk. process_block H (M blk)) H_init (sha256_trace data len)))"
    by (rule sha256_hashes_trace)
  note [simp] = length_sha256_trace nth_sha256_trace div_lt_block_count
  show "length (filter marked (sha256_trace data len)) = 1"
    by (simp add: filter_marked_trace)
  show "len div 64 < length (sha256_trace data len)" by simp
  show "marked (sha256_trace data len ! j) \<longleftrightarrow> j = len div 64"
    if "j < length (sha256_trace data len)" for j
    using that by (simp add: marked_nth_block)
  show "msgblk_len (sha256_trace data len ! (len div 64)) = len mod 64"
    by (simp add: msgblk_len_nth_block)
  show mb: "M_bytes (sha256_trace data len ! (len div 64)) =
      take (len mod 64) (drop (64 * (len div 64)) data) @ 0x80 # replicate (63 - len mod 64) 0"
    using assms by (simp add: M_bytes_marker_block)
  show "M_bytes (sha256_trace data len ! (len div 64)) ! 0 = 0x80" if "len mod 64 = 0"
    unfolding mb using that by simp
  show "len mod 64 < 56" if "Suc (len div 64) = length (sha256_trace data len)"
    using that by (simp add: block_count_def split: if_splits)
  show "M_bytes (sha256_trace data len ! j) = take 64 (drop (64 * j) data)" if "j < len div 64" for j
  proof -
    have "j < block_count len" using that div_lt_block_count [of len] by (rule less_trans)
    then show ?thesis using that assms by (simp add: M_bytes_data_block)
  qed
  show "M_bytes (sha256_trace data len ! j) = replicate 64 0"
    if "j < length (sha256_trace data len)" "len div 64 < j" for j
    using that by (simp add: M_bytes_padding_block)
  show "M (sha256_trace data len ! j) ! w = load_be (M_bytes (sha256_trace data len ! j)) w"
    if "j < length (sha256_trace data len)" "w < 16"
       "Suc j \<noteq> length (sha256_trace data len) \<or> w < 14" for j w
    using that by (simp add: nth_block_def M_msg_block_word_be)
qed

theorem single_padding_marker_witness:
  "length [0x61, 0x62, 0x63 :: u8] = 3 \<and>
   md (snd (sha256 \<lparr>md = []\<rparr> [0x61, 0x62, 0x63] 3)) =
     concat (map store_be
       (foldl (\<lambda>H blk. process_block H (M blk)) H_init (sha256_trace [0x61, 0x62, 0x63] 3))) \<and>
   length (filter marked (sha256_trace [0x61, 0x62, 0x63] 3)) = 1 \<and>
   marked (sha256_trace [0x61, 0x62, 0x63] 3 ! 0) \<and>
   msgblk_len (sha256_trace [0x61, 0x62, 0x63] 3 ! 0) = 3 \<and>
   M_bytes (sha256_trace [0x61, 0x62, 0x63] 3 ! 0) = [0x61, 0x62, 0x63, 0x80] @ replicate 60 0 \<and>
   M (sha256_trace [0x61, 0x62, 0x63] 3 ! 0) ! 0 =
     load_be (M_bytes (sha256_trace [0x61, 0x62, 0x63] 3 ! 0)) 0"
proof -
  have l: "(3::nat) \<le> length [0x61, 0x62, 0x63 :: u8]" by simp
  have N: "block_count 3 = 1" by (simp add: block_count_def)
  from single_padding_marker [OF l, of "\<lparr>md = []\<rparr>"] N show ?thesis
    by (simp add: length_sha256_trace)
qed

text \<open>
  C8 (the code departs from the claim). The claim asks for a digest in storage owned by the
  call. The code returns the address of the one static array \<^verbatim>\<open>md\<close> in every call: two
  calls return the same pointer, and what the first caller reads through its pointer after
  the second call is the second digest. Evaluated here on the inputs of C1 and C2.
\<close>

theorem sha256_static_buffer_shared:
  "(case sha256 s [] 0 of (p1, st1) \<Rightarrow>
      case sha256 st1 [0x61, 0x62, 0x63] 3 of (p2, st2) \<Rightarrow>
        p1 = p2 \<and>
        deref st1 p1 =
          Some digest_empty \<and>
        deref st2 p1 =
          Some digest_abc \<and>
        deref st2 p1 \<noteq> deref st1 p1)"
  by (simp add: sha256_def sha256_md_empty sha256_md_abc digest_empty_def digest_abc_def)



text \<open>
  C10. In every iteration \<open>i\<close> of the loop (\<open>1 \<le> i \<le> N\<close>) the store of the marker
  is executed exactly when \<open>(msgblk_len < 64 \<and> msgblk_len \<noteq> 0) \<or> (len mod 64 = 0 \<and> i = N)\<close>
  holds, and whenever it is executed \<open>msgblk_len < 64\<close>, so that the index is within the 64
  bytes of the block; when \<open>len mod 64 = 0\<close> and \<open>i = N\<close>, \<open>msgblk_len = 0\<close>.
\<close>

theorem marker_store_in_bounds:
  "\<forall>i. 1 \<le> i \<and> i \<le> block_count len \<longrightarrow>
     (let b = sha256_trace data len ! (i - 1) in
        (marked b \<longleftrightarrow> (msgblk_len b < 64 \<and> msgblk_len b \<noteq> 0) \<or>
                      (len mod 64 = 0 \<and> i = block_count len)) \<and>
        (marked b \<longrightarrow> msgblk_len b < 64 \<and> msgblk_len b < length (M_bytes b)) \<and>
        (len mod 64 = 0 \<and> i = block_count len \<longrightarrow> msgblk_len b = 0))"
proof (intro allI impI)
  fix i assume i: "1 \<le> i \<and> i \<le> block_count len"
  then have j: "i - 1 < block_count len" and Si: "Suc (i - 1) = i" by auto
  have b: "sha256_trace data len ! (i - 1) = nth_block data len (i - 1)"
    using j by (rule nth_sha256_trace)
  have cond: "marked (nth_block data len (i - 1)) \<longleftrightarrow>
      (msgblk_len (nth_block data len (i - 1)) < 64 \<and> msgblk_len (nth_block data len (i - 1)) \<noteq> 0) \<or>
      (len mod 64 = 0 \<and> i = block_count len)"
    unfolding nth_block_def marked_msg_block msgblk_len_msg_block Si ..
  have len64: "length (M_bytes (nth_block data len (i - 1))) = 64"
    by (simp add: nth_block_def length_M_bytes_msg_block)
  have bound: "msgblk_len (nth_block data len (i - 1)) < 64" if "marked (nth_block data len (i - 1))"
    using that j by (simp add: marked_nth_block msgblk_len_nth_block)
  have zero: "msgblk_len (nth_block data len (i - 1)) = 0" if "len mod 64 = 0" "i = block_count len"
    using that by (simp add: msgblk_len_nth_block block_count_aligned)
  show "let b = sha256_trace data len ! (i - 1) in
        (marked b \<longleftrightarrow> (msgblk_len b < 64 \<and> msgblk_len b \<noteq> 0) \<or>
                      (len mod 64 = 0 \<and> i = block_count len)) \<and>
        (marked b \<longrightarrow> msgblk_len b < 64 \<and> msgblk_len b < length (M_bytes b)) \<and>
        (len mod 64 = 0 \<and> i = block_count len \<longrightarrow> msgblk_len b = 0)"
    unfolding Let_def b len64
  proof (intro conjI impI)
    show "marked (nth_block data len (i - 1)) \<longleftrightarrow>
      (msgblk_len (nth_block data len (i - 1)) < 64 \<and> msgblk_len (nth_block data len (i - 1)) \<noteq> 0) \<or>
      (len mod 64 = 0 \<and> i = block_count len)"
      by (rule cond)
  qed (use bound zero in auto)
qed

theorem marker_store_in_bounds_witness:
  "marked (sha256_trace (replicate 64 0x61) 64 ! 1) \<and>
   msgblk_len (sha256_trace (replicate 64 0x61) 64 ! 1) = 0 \<and>
   msgblk_len (sha256_trace (replicate 64 0x61) 64 ! 1) < length (M_bytes (sha256_trace (replicate 64 0x61) 64 ! 1))"
proof -
  have N: "block_count 64 = 2" by (simp add: block_count_def)
  have "1 \<le> (2::nat) \<and> 2 \<le> block_count 64" by (simp add: N)
  with marker_store_in_bounds [of 64 "replicate 64 0x61"] N show ?thesis
    by (auto simp: Let_def)
qed

end
